theory Spec2Isabelle
  imports Complex_Main "HOL-Library.Sublist"
begin

section \<open>Data model\<close>

text \<open>
  The headings handled by the plugin are Obsidian's \<^verbatim>\<open>HeadingCache\<close> objects: the heading
  text, its level and its position in the document (start and end, each a line, a column
  and a character offset). A level is a JavaScript number; the host only produces
  integers, so it is an \<^typ>\<open>int\<close> here, with no range built into the type.
  Pixel quantities (heights, offsets, scroll positions) are JavaScript numbers as well and
  are modelled as exact reals; \<^verbatim>\<open>NaN\<close> and rounding are outside the model.
\<close>

record loc =
  line :: int
  col :: int
  offset :: int

record pos =
  pos_start :: loc
  pos_end :: loc

record headingCache =
  heading :: string
  level :: int
  position :: pos

datatype display_mode = Default | Concise

section \<open>Array helpers of the host language\<close>

text \<open>
  \<^verbatim>\<open>Array.prototype.slice\<close> for integer arguments: a negative index counts from the end,
  and both ends are clamped to the array.
\<close>

definition js_rel :: "int \<Rightarrow> nat \<Rightarrow> nat" where
  "js_rel i len = (if i < 0 then nat (int len + i) else min (nat i) len)"

definition js_slice_from :: "int \<Rightarrow> 'a list \<Rightarrow> 'a list" where
  "js_slice_from start xs = drop (js_rel start (length xs)) xs"

definition js_slice :: "int \<Rightarrow> int \<Rightarrow> 'a list \<Rightarrow> 'a list" where
  "js_slice start fin xs =
     (let k = js_rel start (length xs); e = js_rel fin (length xs)
      in take (e - k) (drop k xs))"

section \<open>The collapse routine \<^verbatim>\<open>trivial\<close>\<close>

text \<open>
  \<^verbatim>\<open>subHeadings.reduce((res, cur) => Math.min(res, cur.level), 6)\<close>: the fold starts
  from 6, so the value is the least level only when some level is at most 6.
\<close>

definition topLevel_of :: "headingCache list \<Rightarrow> int" where
  "topLevel_of subHeadings = foldl (\<lambda>res cur. min res (level cur)) 6 subHeadings"

text \<open>
  The second \<^verbatim>\<open>reduce\<close> walks the array with its index and pushes every index whose
  heading sits at \<^verbatim>\<open>topLevel\<close>.
\<close>

definition indexesOfTopLevel :: "headingCache list \<Rightarrow> nat list" where
  "indexesOfTopLevel subHeadings =
     (let topLevel = topLevel_of subHeadings
      in foldl (\<lambda>indexes (cur, index).
                  if level cur = topLevel then indexes @ [index] else indexes)
           [] (zip subHeadings [0..<length subHeadings]))"

text \<open>
  \<^verbatim>\<open>indexesOfTopLevel[indexesOfTopLevel.length - 1]\<close> is \<^verbatim>\<open>undefined\<close> on an empty
  array. Then \<^verbatim>\<open>undefined + 1\<close> is \<^verbatim>\<open>NaN\<close>, and \<^verbatim>\<open>slice(NaN)\<close> starts at index 0:
  the recursion is entered again on the whole array.
\<close>

definition last_index :: "nat list \<Rightarrow> nat option" where
  "last_index indexes =
     (if indexes = [] then None else Some (indexes ! (length indexes - 1)))"

definition slice_after :: "nat option \<Rightarrow> 'a list \<Rightarrow> 'a list" where
  "slice_after i xs = (case i of None \<Rightarrow> xs | Some k \<Rightarrow> drop (k + 1) xs)"

text \<open>
  What one call pushes onto \<^verbatim>\<open>result\<close> before it recurses: in concise mode the heading at
  the last recorded index (nothing when no index was recorded), otherwise the heading at
  every recorded index, one push after the other.
\<close>

definition push_top :: "headingCache list \<Rightarrow> nat list \<Rightarrow> display_mode
    \<Rightarrow> headingCache list \<Rightarrow> headingCache list" where
  "push_top subHeadings indexes m result =
     (if m = Concise
      then (if length indexes \<ge> 1
            then result @ [subHeadings ! (indexes ! (length indexes - 1))]
            else result)
      else foldl (\<lambda>r index. r @ [subHeadings ! index]) result indexes)"

text \<open>
  \<^verbatim>\<open>trivial\<close> mutates the array \<^verbatim>\<open>result\<close> it is given and calls itself on a fresh slice;
  its JavaScript return value is ignored by every caller. The model passes the state
  explicitly: the value is the final content of \<^verbatim>\<open>result\<close>, and \<open>None\<close> stands for a call
  that never returns. (The callers pass a fresh array for \<^verbatim>\<open>result\<close>, never the array that
  is being collapsed.)
\<close>

partial_function (option) trivial ::
  "headingCache list \<Rightarrow> headingCache list \<Rightarrow> display_mode \<Rightarrow> headingCache list option" where
  "trivial subHeadings result m =
     (if subHeadings = [] then Some result
      else let indexes = indexesOfTopLevel subHeadings
           in trivial (slice_after (last_index indexes) subHeadings)
                (push_top subHeadings indexes m result) m)"

text \<open>
  \<^verbatim>\<open>makeExpectedHeadings(headings, max, mode)\<close> returns a function of an index. It
  collapses the headings before the index into a fresh array. When \<^verbatim>\<open>max\<close> is truthy it
  evaluates \<^verbatim>\<open>result.slice(-max)\<close> as a statement of its own: \<^verbatim>\<open>slice\<close> builds a new
  array and leaves \<^verbatim>\<open>result\<close> alone, so the array handed back is the untouched one.
\<close>

definition makeExpectedHeadings ::
  "headingCache list \<Rightarrow> int \<Rightarrow> display_mode \<Rightarrow> int \<Rightarrow> headingCache list option" where
  "makeExpectedHeadings headings max_arg m index =
     (let subHeadings = js_slice 0 index headings
      in case trivial subHeadings [] m of
           None \<Rightarrow> None
         | Some result \<Rightarrow>
             (let discarded = (if max_arg \<noteq> 0 then js_slice_from (- max_arg) result else [])
              in Some result))"

section \<open>The reference description of the collapse\<close>

text \<open>
  The collapse as the design document words it, a pure function that concatenates: nothing
  for no candidates; otherwise \<open>topLevel\<close> is the least level present, \<open>topIndices\<close> the
  indices at that level in order, the emitted headings are the last of them (concise) or
  all of them (default), and the collapse of what lies strictly after the last such index
  follows. This definition is the yardstick the routine above is compared with.
\<close>

function collapse_spec :: "headingCache list \<Rightarrow> display_mode \<Rightarrow> headingCache list" where
  "collapse_spec candidates m =
     (if candidates = [] then []
      else let topLevel = Min (set (map level candidates));
               topIndices = filter (\<lambda>i. level (candidates ! i) = topLevel)
                              [0..<length candidates];
               emitted = (case m of
                            Concise \<Rightarrow> [candidates ! last topIndices]
                          | Default \<Rightarrow> map (\<lambda>i. candidates ! i) topIndices)
           in emitted @ collapse_spec (drop (last topIndices + 1) candidates) m)"
  by pat_completeness auto
termination
  by (relation "measure (\<lambda>(candidates, m). length candidates)") auto

declare collapse_spec.simps [simp del]

section \<open>Offset resolution\<close>

text \<open>
  A resolved heading is the object \<^verbatim>\<open>{ heading, offset }\<close>. The preview strategy works
  on the renderer of the view, \<^verbatim>\<open>view.previewMode.renderer\<close>: its rendered sections, each
  with its \<^verbatim>\<open>html\<close> and its \<^verbatim>\<open>height\<close>, which may be undefined.
\<close>

record positioned =
  po_heading :: headingCache
  po_offset :: real

record renderedSection =
  html :: string
  height :: "real option"

record previewRenderer =
  sections :: "renderedSection list"

text \<open>The regular expression \<^verbatim>\<open>/^<h[1-6]/i\<close>.\<close>

definition isHeading :: "string \<Rightarrow> bool" where
  "isHeading s =
     (case s of
        c1 # c2 # c3 # _ \<Rightarrow>
          c1 = CHR ''<'' \<and> (c2 = CHR ''h'' \<or> c2 = CHR ''H'') \<and> c3 \<in> set ''123456''
      | _ \<Rightarrow> False)"

text \<open>\<^verbatim>\<open>xs[i]\<close> is undefined past the end, and \<^verbatim>\<open>v || 0\<close> is 0 for undefined and for 0.\<close>

definition nth_opt :: "'a list \<Rightarrow> nat \<Rightarrow> 'a option" where
  "nth_opt xs i = (if i < length xs then Some (xs ! i) else None)"

definition or_zero :: "real option \<Rightarrow> real" where
  "or_zero v = (case v of None \<Rightarrow> 0 | Some x \<Rightarrow> if x = 0 then 0 else x)"

text \<open>
  One round of the \<^verbatim>\<open>forEach\<close> over the sections, on the pair of \<^verbatim>\<open>headingsOffset\<close> and
  \<^verbatim>\<open>heightSum\<close>; a missing height is destructured to 0.
\<close>

definition height_of :: "renderedSection \<Rightarrow> real" where
  "height_of sec = (case height sec of None \<Rightarrow> 0 | Some h \<Rightarrow> h)"

definition preview_step :: "real list \<times> real \<Rightarrow> renderedSection \<Rightarrow> real list \<times> real" where
  "preview_step st sec =
     (case st of (headingsOffset, heightSum) \<Rightarrow>
        (if isHeading (html sec) then headingsOffset @ [heightSum] else headingsOffset,
         heightSum + height_of sec))"

text \<open>
  The body of \<^verbatim>\<open>getHeadingsWithOffsetPreview\<close>, on the renderer the view gave: the walk
  over the sections and the \<^verbatim>\<open>map\<close> over the headings.
\<close>

definition getHeadingsWithOffsetPreview ::
  "headingCache list \<Rightarrow> previewRenderer \<Rightarrow> positioned list" where
  "getHeadingsWithOffsetPreview headings view =
     (let headingsOffset = fst (foldl preview_step ([], 0) (sections view))
      in map (\<lambda>(h, index).
                \<lparr>po_heading = h, po_offset = or_zero (nth_opt headingsOffset index)\<rparr>)
           (zip headings [0..<length headings]))"

subsection \<open>The view and what it is asked\<close>

text \<open>
  Neither strategy guards what it asks of the view, and there is no \<^verbatim>\<open>try\<close> around either.
  Each thing asked is a lookup with three outcomes: it throws, it gives nothing
  (\<^verbatim>\<open>undefined\<close> or \<^verbatim>\<open>null\<close>), or it gives a value. A thrown error leaves the call, and
  so does the \<^verbatim>\<open>TypeError\<close> of reading a property of nothing.

  The view is asked for \<^verbatim>\<open>view.previewMode.renderer\<close> with its sections, for the
  \<^verbatim>\<open>offsetTop\<close> of the element \<^verbatim>\<open>querySelector('.cm-contentContainer')\<close> finds, for the
  block \<^verbatim>\<open>view.editor.cm.lineBlockAt\<close> gives at a document offset, whose \<^verbatim>\<open>top\<close> may be
  undefined, and for the answer of \<^verbatim>\<open>isEditSourceMode\<close>.
\<close>

datatype js_error = TypeError | HostError

datatype 'a lookup = Throws | Nothing | Gives 'a

record blockInfo =
  block_top :: "real option"

record markdownView =
  previewMode_renderer :: "previewRenderer lookup"
  contentContainer_offsetTop :: "real lookup"
  lineBlockAt :: "int \<Rightarrow> blockInfo lookup"
  isEditSourceMode :: bool

text \<open>
  \<^verbatim>\<open>view.previewMode.renderer.sections.forEach(...)\<close>: with no renderer or no sections
  there is nothing to call \<^verbatim>\<open>forEach\<close> on.
\<close>

definition getHeadingsWithOffsetPreview_view ::
  "headingCache list \<Rightarrow> markdownView \<Rightarrow> js_error + positioned list" where
  "getHeadingsWithOffsetPreview_view headings view =
     (case previewMode_renderer view of
        Throws \<Rightarrow> Inl HostError
      | Nothing \<Rightarrow> Inl TypeError
      | Gives renderer \<Rightarrow> Inr (getHeadingsWithOffsetPreview headings renderer))"

text \<open>
  \<^verbatim>\<open>querySelector(...)?.offsetTop || 0\<close>: an element that is not found is guarded by
  \<^verbatim>\<open>?.\<close> and counts 0.
\<close>

definition container_offset :: "real lookup \<Rightarrow> js_error + real" where
  "container_offset c =
     (case c of
        Throws \<Rightarrow> Inl HostError
      | Nothing \<Rightarrow> Inr 0
      | Gives t \<Rightarrow> Inr (or_zero (Some t)))"

text \<open>
  \<^verbatim>\<open>const { top = 0 } = view.editor.cm.lineBlockAt(position.start.offset)\<close>: the default
  covers a block without \<^verbatim>\<open>top\<close>; destructuring nothing is a \<^verbatim>\<open>TypeError\<close>. (The line
  commented out above it ended in \<^verbatim>\<open>|| {}\<close>; this one does not.)
\<close>

definition top_or_zero :: "blockInfo \<Rightarrow> real" where
  "top_or_zero blk = (case block_top blk of None \<Rightarrow> 0 | Some t \<Rightarrow> t)"

definition line_top :: "blockInfo lookup \<Rightarrow> js_error + real" where
  "line_top b =
     (case b of
        Throws \<Rightarrow> Inl HostError
      | Nothing \<Rightarrow> Inl TypeError
      | Gives blk \<Rightarrow> Inr (top_or_zero blk))"

text \<open>
  The loop of the source strategy: for each heading the container is asked first, then
  the line block, and the object pushed carries \<^verbatim>\<open>top + offset\<close>. The first error ends
  the call.
\<close>

fun source_loop ::
  "markdownView \<Rightarrow> headingCache list \<Rightarrow> positioned list \<Rightarrow> js_error + positioned list" where
  "source_loop view [] result = Inr result"
| "source_loop view (h # rest) result =
     (case container_offset (contentContainer_offsetTop view) of
        Inl e \<Rightarrow> Inl e
      | Inr off \<Rightarrow>
          (case line_top (lineBlockAt view (offset (pos_start (position h)))) of
             Inl e \<Rightarrow> Inl e
           | Inr tp \<Rightarrow>
               source_loop view rest (result @ [\<lparr>po_heading = h, po_offset = tp + off\<rparr>])))"

definition getHeadingsWithOffsetSource ::
  "headingCache list \<Rightarrow> markdownView \<Rightarrow> js_error + positioned list" where
  "getHeadingsWithOffsetSource headings view = source_loop view headings []"

definition getHeadingsWithOffset ::
  "headingCache list \<Rightarrow> markdownView \<Rightarrow> js_error + positioned list" where
  "getHeadingsWithOffset headings view =
     (if isEditSourceMode view then getHeadingsWithOffsetSource headings view
      else getHeadingsWithOffsetPreview_view headings view)"

section \<open>Settings and the stack computed by \<^verbatim>\<open>renderHeadings\<close>\<close>

datatype scroll_behaviour = Auto | Smooth | Instant

record iSetting =
  mode :: display_mode
  max_setting :: int
  scrollBehaviour :: scroll_behaviour

text \<open>
  \<^verbatim>\<open>parseInt(value, 10)\<close>: leading white space is skipped, one sign is read, then the
  longest run of decimal digits; no digit at all gives \<^verbatim>\<open>NaN\<close>, here \<open>None\<close>. The white
  space recognised is the part of the language's list that fits in one byte.
\<close>

definition isWhiteSpace :: "char \<Rightarrow> bool" where
  "isWhiteSpace c = (of_char c \<in> {9, 10, 11, 12, 13, 32, 160 :: nat})"

definition isDigit :: "char \<Rightarrow> bool" where
  "isDigit c = (48 \<le> (of_char c :: nat) \<and> (of_char c :: nat) \<le> 57)"

definition digits_value :: "string \<Rightarrow> int" where
  "digits_value ds = foldl (\<lambda>acc c. 10 * acc + (of_char c - 48)) 0 ds"

definition parseInt10 :: "string \<Rightarrow> int option" where
  "parseInt10 s =
     (let S = dropWhile isWhiteSpace s;
          sign = (case S of c # _ \<Rightarrow> if c = CHR ''-'' then - 1 else 1 | [] \<Rightarrow> (1 :: int));
          S' = (case S of c # r \<Rightarrow> if c = CHR ''-'' \<or> c = CHR ''+'' then r else S | [] \<Rightarrow> S);
          Z = takeWhile isDigit S'
      in if Z = [] then None else Some (sign * digits_value Z))"

text \<open>
  The handler of the text field stores \<^verbatim>\<open>parseInt(value, 10) || 0\<close> as the new \<^verbatim>\<open>max\<close>
  and keeps the other settings.
\<close>

definition onChange_max :: "iSetting \<Rightarrow> string \<Rightarrow> iSetting" where
  "onChange_max settings v =
     settings\<lparr>max_setting :=
       (case parseInt10 v of None \<Rightarrow> 0 | Some n \<Rightarrow> if n = 0 then 0 else n)\<rparr>"

text \<open>
  The filter at the head of \<^verbatim>\<open>renderHeadings\<close> keeps a heading when the line its source
  text ends on, plus one, is at most the scroll position.
\<close>

definition validHeadings_of :: "headingCache list \<Rightarrow> real \<Rightarrow> headingCache list" where
  "validHeadings_of headings scrollTop =
     filter (\<lambda>h. real_of_int (line (pos_end (position h)) + 1) \<le> scrollTop) headings"

text \<open>
  The truncation of \<^verbatim>\<open>renderHeadings\<close>:
  \<^verbatim>\<open>if (this.settings.max) finalHeadings = finalHeadings.slice(-this.settings.max)\<close>.
\<close>

definition truncate_max :: "int \<Rightarrow> 'a list \<Rightarrow> 'a list" where
  "truncate_max max_arg finalHeadings =
     (if max_arg \<noteq> 0 then js_slice_from (- max_arg) finalHeadings else finalHeadings)"

text \<open>The list of headings \<^verbatim>\<open>renderHeadings\<close> goes on to draw.\<close>

definition renderHeadings :: "iSetting \<Rightarrow> headingCache list \<Rightarrow> real \<Rightarrow> headingCache list option" where
  "renderHeadings settings headings scrollTop =
     (let validHeadings = validHeadings_of headings scrollTop
      in case (if validHeadings \<noteq> [] then trivial validHeadings [] (mode settings) else Some []) of
           None \<Rightarrow> None
         | Some finalHeadings \<Rightarrow> Some (truncate_max (max_setting settings) finalHeadings))"

section \<open>Sample inputs\<close>

definition mk_heading :: "string \<Rightarrow> int \<Rightarrow> int \<Rightarrow> headingCache" where
  "mk_heading txt lvl lineno =
     \<lparr>heading = txt, level = lvl,
      position = \<lparr>pos_start = \<lparr>line = lineno, col = 0, offset = 40 * lineno\<rparr>,
                  pos_end = \<lparr>line = lineno, col = 1, offset = 40 * lineno + 1\<rparr>\<rparr>\<rparr>"

definition hA :: headingCache where "hA = mk_heading ''A'' 1 0"
definition hA1 :: headingCache where "hA1 = mk_heading ''A.1'' 2 10"
definition hA2 :: headingCache where "hA2 = mk_heading ''A.2'' 2 20"
definition hB :: headingCache where "hB = mk_heading ''B'' 1 30"
definition hDeep :: headingCache where "hDeep = mk_heading ''beyond'' 7 0"

definition sample_settings :: iSetting where
  "sample_settings = \<lparr>mode = Default, max_setting = 0, scrollBehaviour = Auto\<rparr>"

definition sample_sections :: "renderedSection list" where
  "sample_sections =
     [\<lparr>html = ''<p>intro</p>'', height = Some 30\<rparr>,
      \<lparr>html = ''<h1>A</h1>'', height = Some 20\<rparr>,
      \<lparr>html = ''<p>text</p>'', height = None\<rparr>,
      \<lparr>html = ''<H2>A.1</H2>'', height = Some 12\<rparr>,
      \<lparr>html = ''<hr>'', height = Some 3\<rparr>]"

definition preview_view :: previewRenderer where
  "preview_view = \<lparr>sections = sample_sections\<rparr>"

definition source_view :: markdownView where
  "source_view =
     \<lparr>previewMode_renderer = Nothing, contentContainer_offsetTop = Gives 10,
      lineBlockAt = (\<lambda>p. if p = 0 then Gives \<lparr>block_top = None\<rparr>
                          else Gives \<lparr>block_top = Some 100\<rparr>),
      isEditSourceMode = True\<rparr>"

definition unanswered_view :: markdownView where
  "unanswered_view =
     \<lparr>previewMode_renderer = Nothing, contentContainer_offsetTop = Gives 10,
      lineBlockAt = (\<lambda>p. if p = 0 then Nothing else Gives \<lparr>block_top = Some 100\<rparr>),
      isEditSourceMode = True\<rparr>"

definition reading_view :: markdownView where
  "reading_view =
     \<lparr>previewMode_renderer = Gives preview_view, contentContainer_offsetTop = Nothing,
      lineBlockAt = (\<lambda>p. Nothing), isEditSourceMode = False\<rparr>"

definition unrendered_view :: markdownView where
  "unrendered_view =
     \<lparr>previewMode_renderer = Nothing, contentContainer_offsetTop = Nothing,
      lineBlockAt = (\<lambda>p. Nothing), isEditSourceMode = False\<rparr>"

section \<open>The active-heading filter as the design document words it\<close>

text \<open>
  The document describes the filter on resolved headings: keep those whose resolved
  offset is at most the scroll position plus the height of the sticky band. It is written
  down here to be compared with the filter of \<^verbatim>\<open>renderHeadings\<close>.
\<close>

definition active_filter_spec :: "positioned list \<Rightarrow> real \<Rightarrow> real \<Rightarrow> positioned list" where
  "active_filter_spec resolved scrollTop stickyBandHeight =
     filter (\<lambda>p. po_offset p \<le> scrollTop + stickyBandHeight) resolved"

section \<open>The routine against its description\<close>

lemma foldl_min_level:
  "foldl (\<lambda>res cur. min res (level cur)) a xs = (if xs = [] then a else min a (Min (set (map level xs))))"
  by (induction xs arbitrary: a) (auto simp: min.assoc)

lemma topLevel_of_Min:
  assumes "xs \<noteq> []" "\<forall>h\<in>set xs. level h \<le> 6"
  shows "topLevel_of xs = Min (set (map level xs))"
proof -
  have "Min (set (map level xs)) \<le> 6" using assms by (cases xs) (auto simp: Min_le_iff)
  then show ?thesis using assms(1) by (simp add: topLevel_of_def foldl_min_level)
qed

lemma foldl_push_indexes:
  "foldl (\<lambda>indexes (cur, index). if level cur = t then indexes @ [index] else indexes) acc
      (zip xs [0..<length xs])
   = acc @ filter (\<lambda>i. level (xs ! i) = t) [0..<length xs]"
proof (induction xs rule: rev_induct)
  case Nil
  then show ?case by simp
next
  case (snoc x xs)
  have "filter (\<lambda>i. level ((xs @ [x]) ! i) = t) [0..<length xs] = filter (\<lambda>i. level (xs ! i) = t) [0..<length xs]"
    by (rule filter_cong) (auto simp: nth_append)
  then show ?case using snoc by (simp add: nth_append)
qed

lemma indexesOfTopLevel_filter:
  "indexesOfTopLevel xs = filter (\<lambda>i. level (xs ! i) = topLevel_of xs) [0..<length xs]"
  using foldl_push_indexes [of "topLevel_of xs" "[]" xs]
  by (simp add: indexesOfTopLevel_def)

lemma Min_level_attained:
  assumes "xs \<noteq> []"
  shows "\<exists>i<length xs. level (xs ! i) = Min (set (map level xs))"
proof -
  have "Min (set (map level xs)) \<in> set (map level xs)"
    using assms by (intro Min_in) auto
  then show ?thesis by (auto simp: in_set_conv_nth)
qed

lemma sorted_last_ge:
  assumes "sorted (xs :: nat list)" "x \<in> set xs"
  shows "x \<le> last xs"
proof -
  obtain k where k: "k < length xs" "xs ! k = x"
    using assms(2) by (auto simp: in_set_conv_nth)
  have "xs ! k \<le> xs ! (length xs - 1)"
    using assms(1) k(1) by (intro sorted_nth_mono) auto
  moreover have "xs \<noteq> []" using assms(2) by auto
  ultimately show ?thesis using k(2) by (simp add: last_conv_nth)
qed

lemma filter_upt_last:
  assumes "filter P [0..<n] \<noteq> []"
  shows "last (filter P [0..<n]) < n" "P (last (filter P [0..<n]))"
    "\<And>j. last (filter P [0..<n]) < j \<Longrightarrow> j < n \<Longrightarrow> \<not> P j"
proof -
  let ?idx = "filter P [0..<n]"
  have mem: "last ?idx \<in> set ?idx" using assms by (rule last_in_set)
  show "last ?idx < n" using mem by simp
  show "P (last ?idx)" using mem by simp
  fix j assume j: "last ?idx < j" "j < n"
  show "\<not> P j"
  proof
    assume "P j"
    then have "j \<in> set ?idx" using j by simp
    moreover have "sorted ?idx" using sorted_wrt_filter [of "(\<le>)" "[0..<n]" P] by simp
    ultimately have "j \<le> last ?idx"
      using sorted_last_ge by blast
    then show False using j by simp
  qed
qed

lemma indexes_nonempty:
  assumes "xs \<noteq> []" "\<forall>h\<in>set xs. level h \<le> 6"
  shows "indexesOfTopLevel xs \<noteq> []"
proof -
  obtain i where "i < length xs" "level (xs ! i) = topLevel_of xs"
    using Min_level_attained [OF assms(1)] topLevel_of_Min [OF assms] by auto
  then have "i \<in> set (indexesOfTopLevel xs)" by (simp add: indexesOfTopLevel_filter)
  then show ?thesis by auto
qed

lemma last_index_Some: "indexes \<noteq> [] \<Longrightarrow> last_index indexes = Some (last indexes)"
  by (simp add: last_index_def last_conv_nth)

lemma foldl_push: "foldl (\<lambda>r index. r @ [xs ! index]) result indexes = result @ map (\<lambda>i. xs ! i) indexes"
  by (induction indexes arbitrary: result) auto

lemma push_top_append:
  "indexes \<noteq> [] \<Longrightarrow> push_top xs indexes m result =
     result @ (case m of Concise \<Rightarrow> [xs ! last indexes] | Default \<Rightarrow> map (\<lambda>i. xs ! i) indexes)"
  by (cases m; cases indexes) (auto simp: push_top_def foldl_push last_conv_nth)

lemma collapse_step:
  assumes "xs \<noteq> []"
    and "idx = filter (\<lambda>i. level (xs ! i) = Min (set (map level xs))) [0..<length xs]"
  shows "collapse_spec xs m =
           (case m of Concise \<Rightarrow> [xs ! last idx] | Default \<Rightarrow> map (\<lambda>i. xs ! i) idx)
           @ collapse_spec (drop (last idx + 1) xs) m"
  using assms(1) unfolding assms(2)
  by (subst collapse_spec.simps) (simp add: Let_def split: display_mode.split)

lemma trivial_collapse:
  "\<forall>h\<in>set xs. level h \<le> 6 \<Longrightarrow> trivial xs result m = Some (result @ collapse_spec xs m)"
proof (induction xs m arbitrary: result rule: collapse_spec.induct)
  case (1 candidates m)
  show ?case
  proof (cases "candidates = []")
    case True
    then show ?thesis by (simp add: trivial.simps collapse_spec.simps)
  next
    case False
    let ?idx = "indexesOfTopLevel candidates"
    have tl: "topLevel_of candidates = Min (set (map level candidates))"
      using False "1.prems" by (rule topLevel_of_Min)
    have ne: "?idx \<noteq> []" using False "1.prems" by (rule indexes_nonempty)
    have idx: "?idx = filter (\<lambda>i. level (candidates ! i) = Min (set (map level candidates))) [0..<length candidates]"
      by (simp add: indexesOfTopLevel_filter tl)
    have rest: "\<forall>h\<in>set (drop (last ?idx + 1) candidates). level h \<le> 6"
      using "1.prems" by (meson in_set_dropD)
    have ih: "trivial (drop (last ?idx + 1) candidates) r m
                = Some (r @ collapse_spec (drop (last ?idx + 1) candidates) m)" for r
      using "1.IH" [OF False refl idx refl rest] .
    have "trivial candidates result m
            = trivial (drop (last ?idx + 1) candidates) (push_top candidates ?idx m result) m"
      using False ne by (subst trivial.simps) (simp add: last_index_Some slice_after_def Let_def)
    also have "\<dots> = Some (push_top candidates ?idx m result @ collapse_spec (drop (last ?idx + 1) candidates) m)"
      by (rule ih)
    also have "\<dots> = Some (result @ collapse_spec candidates m)"
      using ne by (simp add: push_top_append collapse_step [OF False idx])
    finally show ?thesis .
  qed
qed

subsection \<open>What is pushed is a subsequence\<close>

lemma map_nth_filter:
  "map (\<lambda>i. xs ! i) (filter (\<lambda>i. Q (xs ! i)) [0..<length xs]) = filter Q xs"
proof -
  have "filter Q (map (\<lambda>i. xs ! i) [0..<length xs]) = filter Q xs"
    by (simp add: map_nth)
  then show ?thesis by (simp add: filter_map comp_def)
qed

lemma filter_drop_empty:
  assumes "\<And>i. n \<le> i \<Longrightarrow> i < length xs \<Longrightarrow> \<not> Q (xs ! i)"
  shows "filter Q (drop n xs) = []"
proof -
  have "\<not> Q h" if h: "h \<in> set (drop n xs)" for h
  proof -
    from h have "\<exists>j<length (drop n xs). drop n xs ! j = h"
      by (rule iffD1 [OF in_set_conv_nth])
    then obtain j where j: "j < length (drop n xs)" "drop n xs ! j = h"
      by (elim exE conjE)
    have lt: "n + j < length xs" using j(1) by simp
    then have "n \<le> length xs" by arith
    then have "drop n xs ! j = xs ! (n + j)" by (rule nth_drop)
    moreover have "\<not> Q (xs ! (n + j))" using lt by (intro assms) arith
    ultimately show ?thesis using j(2) by metis
  qed
  then show ?thesis unfolding filter_empty_conv by blast
qed
lemma filter_drop_after_last:
  assumes "filter (\<lambda>i. Q (xs ! i)) [0..<length xs] \<noteq> []"
  shows "filter Q (drop (last (filter (\<lambda>i. Q (xs ! i)) [0..<length xs]) + 1) xs) = []"
proof (rule filter_drop_empty)
  fix i
  assume "last (filter (\<lambda>i. Q (xs ! i)) [0..<length xs]) + 1 \<le> i" "i < length xs"
  then show "\<not> Q (xs ! i)"
    using filter_upt_last(3) [OF assms, of i] by simp
qed

lemma emitted_subseq:
  assumes "idx = filter (\<lambda>i. Q (xs ! i)) [0..<length xs]" "idx \<noteq> []"
  shows "subseq (map (\<lambda>i. xs ! i) idx) (take (last idx + 1) xs)"
    and "subseq [xs ! last idx] (take (last idx + 1) xs)"
proof -
  have ne: "filter (\<lambda>i. Q (xs ! i)) [0..<length xs] \<noteq> []" using assms by simp
  have "filter Q xs = filter Q (take (last idx + 1) xs @ drop (last idx + 1) xs)"
    by simp
  also have "\<dots> = filter Q (take (last idx + 1) xs)"
    using filter_drop_after_last [OF ne] unfolding assms(1) filter_append by simp
  finally have "map (\<lambda>i. xs ! i) idx = filter Q (take (last idx + 1) xs)"
    unfolding assms(1) map_nth_filter .
  then show "subseq (map (\<lambda>i. xs ! i) idx) (take (last idx + 1) xs)" by simp
  have "last idx < length xs" using filter_upt_last(1) [OF ne] assms(1) by simp
  then have "take (last idx + 1) xs = take (last idx) xs @ [xs ! last idx]"
    by (simp add: take_Suc_conv_app_nth)
  then show "subseq [xs ! last idx] (take (last idx + 1) xs)"
    by (simp add: subseq_singleton_left)
qed

lemma push_top_general:
  "push_top xs indexes m result =
     result @ (case m of Concise \<Rightarrow> (if indexes = [] then [] else [xs ! last indexes])
               | Default \<Rightarrow> map (\<lambda>i. xs ! i) indexes)"
  by (cases m; cases indexes) (auto simp: push_top_def foldl_push last_conv_nth)

lemma step_subseq:
  assumes "subseq ys (slice_after (last_index (indexesOfTopLevel xs)) xs)"
  shows "\<exists>zs. push_top xs (indexesOfTopLevel xs) m result @ ys = result @ zs \<and> subseq zs xs"
proof (cases "indexesOfTopLevel xs = []")
  case True
  then show ?thesis using assms
    by (cases m) (simp_all add: push_top_general last_index_def slice_after_def)
next
  case False
  let ?idx = "indexesOfTopLevel xs"
  let ?em = "case m of Concise \<Rightarrow> [xs ! last ?idx] | Default \<Rightarrow> map (\<lambda>i. xs ! i) ?idx"
  have ys: "subseq ys (drop (last ?idx + 1) xs)"
    using assms False by (simp add: last_index_Some slice_after_def)
  have "subseq ?em (take (last ?idx + 1) xs)"
    using emitted_subseq [OF indexesOfTopLevel_filter False] by (cases m) simp_all
  then have "subseq (?em @ ys) (take (last ?idx + 1) xs @ drop (last ?idx + 1) xs)"
    using ys by (rule list_emb_append_mono)
  then have "subseq (?em @ ys) xs" by simp
  moreover have "push_top xs ?idx m result @ ys = result @ (?em @ ys)"
    using False by (simp add: push_top_append)
  ultimately show ?thesis by blast
qed

lemma trivial_appends_subseq:
  assumes "trivial xs result m = Some out"
  shows "\<exists>ys. out = result @ ys \<and> subseq ys xs"
proof (rule trivial.raw_induct
    [where P = "\<lambda>xs result m out. \<exists>ys. out = result @ ys \<and> subseq ys xs", OF _ assms])
  fix f :: "headingCache list \<Rightarrow> headingCache list \<Rightarrow> display_mode \<Rightarrow> headingCache list option"
  fix xs result m out
  assume IH: "\<And>xs result m out. f xs result m = Some out
                \<Longrightarrow> \<exists>ys. out = result @ ys \<and> subseq ys xs"
    and body: "(if xs = [] then Some result
                else let indexes = indexesOfTopLevel xs
                     in f (slice_after (last_index indexes) xs)
                          (push_top xs indexes m result) m) = Some out"
  show "\<exists>ys. out = result @ ys \<and> subseq ys xs"
  proof (cases "xs = []")
    case True
    then show ?thesis using body by simp
  next
    case False
    let ?idx = "indexesOfTopLevel xs"
    have "f (slice_after (last_index ?idx) xs) (push_top xs ?idx m result) m = Some out"
      using body False by (simp add: Let_def)
    then obtain ys where ys: "out = push_top xs ?idx m result @ ys"
        "subseq ys (slice_after (last_index ?idx) xs)"
      using IH by blast
    then show ?thesis using step_subseq [OF ys(2), of m result] by auto
  qed
qed

lemma collapse_subseq:
  assumes "\<forall>h\<in>set xs. level h \<le> 6"
  shows "subseq (collapse_spec xs m) xs"
  using trivial_appends_subseq [OF trivial_collapse [OF assms, of "[]" m]] by simp

lemma after_last_deeper:
  assumes "xs \<noteq> []" "\<forall>h\<in>set xs. level h \<le> 6" "h \<in> set (drop (last (indexesOfTopLevel xs) + 1) xs)"
  shows "topLevel_of xs < level h"
proof -
  let ?idx = "indexesOfTopLevel xs"
  have ne: "filter (\<lambda>i. level (xs ! i) = topLevel_of xs) [0..<length xs] \<noteq> []"
    using indexes_nonempty [OF assms(1,2)] by (simp add: indexesOfTopLevel_filter)
  have "filter (\<lambda>h. level h = topLevel_of xs) (drop (last ?idx + 1) xs) = []"
    using filter_drop_after_last [OF ne] by (simp add: indexesOfTopLevel_filter)
  then have "level h \<noteq> topLevel_of xs" using assms(3) by (auto simp: filter_empty_conv)
  moreover have "h \<in> set xs" using assms(3) by (rule in_set_dropD)
  then have "topLevel_of xs \<le> level h"
    using topLevel_of_Min [OF assms(1,2)] by simp
  ultimately show ?thesis by simp
qed

subsection \<open>Levels along the pushed headings\<close>

lemma collapse_set:
  assumes "\<forall>h\<in>set xs. level h \<le> 6" "h \<in> set (collapse_spec xs m)"
  shows "h \<in> set xs"
proof -
  obtain y where "y \<in> set xs" "h = y"
    by (rule list_emb_set [OF collapse_subseq [OF assms(1)] assms(2)])
  then show ?thesis by simp
qed

lemma sorted_const:
  "(\<And>x. x \<in> set xs \<Longrightarrow> x = (t::int)) \<Longrightarrow> sorted xs"
  by (induction xs) auto

lemma levels_concise_step:
  assumes "sorted_wrt (<) (map level B)" "\<And>h. h \<in> set B \<Longrightarrow> t < level h" "level x = t"
  shows "sorted_wrt (<) (map level ([x] @ B))"
  using assms by auto

lemma levels_default_step:
  assumes "sorted (map level B)" "\<And>h. h \<in> set B \<Longrightarrow> t < level h"
    "\<And>h. h \<in> set A \<Longrightarrow> level h = t"
  shows "sorted (map level (A @ B))"
proof -
  have "sorted (map level A)"
    by (rule sorted_const [where t = t]) (auto simp: assms(3))
  moreover have "level a \<le> level b" if "a \<in> set A" "b \<in> set B" for a b
    using assms(2) [OF that(2)] assms(3) [OF that(1)] by simp
  ultimately show ?thesis using assms(1) by (auto simp: sorted_append)
qed

lemma collapse_levels:
  assumes "\<forall>h\<in>set xs. level h \<le> 6"
  shows "(m = Concise \<longrightarrow> sorted_wrt (<) (map level (collapse_spec xs m)))
       \<and> (m = Default \<longrightarrow> sorted (map level (collapse_spec xs m)))"
  using assms
proof (induction xs m rule: collapse_spec.induct)
  case (1 candidates m)
  show ?case
  proof (cases "candidates = []")
    case True
    then show ?thesis by (simp add: collapse_spec.simps)
  next
    case False
    let ?idx = "indexesOfTopLevel candidates"
    let ?rest = "drop (last ?idx + 1) candidates"
    have tl: "topLevel_of candidates = Min (set (map level candidates))"
      using False "1.prems" by (rule topLevel_of_Min)
    have ne: "?idx \<noteq> []" using False "1.prems" by (rule indexes_nonempty)
    have idx: "?idx = filter (\<lambda>i. level (candidates ! i) = Min (set (map level candidates)))
                        [0..<length candidates]"
      by (simp add: indexesOfTopLevel_filter tl)
    have rest: "\<forall>h\<in>set ?rest. level h \<le> 6"
      using "1.prems" by (meson in_set_dropD)
    note ih = "1.IH" [OF False refl idx refl rest]
    have deeper: "topLevel_of candidates < level h" if "h \<in> set (collapse_spec ?rest m)" for h
      by (rule after_last_deeper [OF False "1.prems" collapse_set [OF rest that]])
    have top: "level (candidates ! i) = topLevel_of candidates" if "i \<in> set ?idx" for i
      using that by (simp add: indexesOfTopLevel_filter)
    have lastin: "last ?idx \<in> set ?idx" using ne by (rule last_in_set)
    show ?thesis
    proof (cases m)
      case Default
      have srt: "sorted (map level (collapse_spec ?rest m))" using ih Default by simp
      have "level h = topLevel_of candidates" if "h \<in> set (map (\<lambda>i. candidates ! i) ?idx)" for h
        using that top by auto
      then have "sorted (map level (map (\<lambda>i. candidates ! i) ?idx @ collapse_spec ?rest m))"
        using levels_default_step [OF srt deeper] by blast
      then show ?thesis using Default by (simp add: collapse_step [OF False idx])
    next
      case Concise
      have srt: "sorted_wrt (<) (map level (collapse_spec ?rest m))" using ih Concise by simp
      have "sorted_wrt (<) (map level ([candidates ! last ?idx] @ collapse_spec ?rest m))"
        by (rule levels_concise_step [OF srt deeper top [OF lastin]])
      then show ?thesis using Concise by (simp add: collapse_step [OF False idx])
    qed
  qed
qed

lemma slice_after_shorter:
  assumes "xs \<noteq> []" "\<forall>h\<in>set xs. level h \<le> 6"
  shows "length (slice_after (last_index (indexesOfTopLevel xs)) xs) < length xs"
  using assms(1) indexes_nonempty [OF assms] by (simp add: last_index_Some slice_after_def)

subsection \<open>The sample headings\<close>

lemma sample_levels:
  "level hA = 1" "level hA1 = 2" "level hA2 = 2" "level hB = 1" "level hDeep = 7"
  by (simp_all add: hA_def hA1_def hA2_def hB_def hDeep_def mk_heading_def)

subsection \<open>Levels beyond 6\<close>

text \<open>
  A call that returns was given no heading, or some heading of level at most 6: when
  every level exceeds 6 the first fold yields 6, no index is recorded, and the call
  is repeated on the same array.
\<close>

lemma trivial_returns_needs_shallow:
  assumes "trivial xs result m = Some out"
  shows "xs = [] \<or> (\<exists>h\<in>set xs. level h \<le> 6)"
proof (rule trivial.raw_induct
    [where P = "\<lambda>xs result m out. xs = [] \<or> (\<exists>h\<in>set xs. level h \<le> 6)", OF _ assms])
  fix f :: "headingCache list \<Rightarrow> headingCache list \<Rightarrow> display_mode \<Rightarrow> headingCache list option"
  fix xs result m out
  assume IH: "\<And>xs result m out. f xs result m = Some out
                \<Longrightarrow> xs = [] \<or> (\<exists>h\<in>set xs. level h \<le> 6)"
    and body: "(if xs = [] then Some result
                else let indexes = indexesOfTopLevel xs
                     in f (slice_after (last_index indexes) xs)
                          (push_top xs indexes m result) m) = Some out"
  show "xs = [] \<or> (\<exists>h\<in>set xs. level h \<le> 6)"
  proof (cases "xs = [] \<or> indexesOfTopLevel xs \<noteq> []")
    case True
    then show ?thesis
    proof
      assume "indexesOfTopLevel xs \<noteq> []"
      then obtain i where "i \<in> set (indexesOfTopLevel xs)" by (cases "indexesOfTopLevel xs") auto
      then have i: "i < length xs" "level (xs ! i) = topLevel_of xs"
        by (simp_all add: indexesOfTopLevel_filter)
      have "topLevel_of xs \<le> 6"
        by (simp add: topLevel_of_def foldl_min_level)
      then have "level (xs ! i) \<le> 6" using i(2) by simp
      then show ?thesis using i(1) nth_mem by blast
    qed simp
  next
    case False
    then have "f xs (push_top xs [] m result) m = Some out"
      using body by (simp add: last_index_def slice_after_def)
    then show ?thesis by (rule IH)
  qed
qed

lemma trivial_beyond_six: "trivial [hDeep] result m = None"
proof (cases "trivial [hDeep] result m")
  case (Some out)
  then show ?thesis using trivial_returns_needs_shallow [OF Some] by (simp add: sample_levels)
qed simp

section \<open>The claims about the collapse\<close>

text \<open>
  C1. For every candidate sequence whose levels all lie in 1..6, for either mode and
  whatever \<^verbatim>\<open>result\<close> held before, \<^verbatim>\<open>trivial\<close> returns and leaves in \<^verbatim>\<open>result\<close> its former
  content followed by the collapse of the candidates as the design document describes
  it: nothing for no candidates; otherwise, with \<open>topLevel\<close> the least level present and
  \<open>topIndices\<close> the indices at that level in order, the heading at the last of
  \<open>topIndices\<close> (concise) or the headings at all of \<open>topIndices\<close> in order (default),
  followed in both modes by the collapse of what lies strictly after that last index.
\<close>

theorem trivial_is_collapse:
  assumes "\<forall>h\<in>set candidates. 1 \<le> level h \<and> level h \<le> 6"
  shows "trivial candidates result m = Some (result @ collapse_spec candidates m)
       \<and> collapse_spec [] m = []
       \<and> (candidates \<noteq> [] \<longrightarrow>
            (let topLevel = Min (set (map level candidates));
                 topIndices = filter (\<lambda>i. level (candidates ! i) = topLevel)
                                [0..<length candidates];
                 remainder = drop (last topIndices + 1) candidates
             in collapse_spec candidates Concise
                  = [candidates ! last topIndices] @ collapse_spec remainder Concise
              \<and> collapse_spec candidates Default
                  = map (\<lambda>i. candidates ! i) topIndices @ collapse_spec remainder Default))"
proof -
  have "\<forall>h\<in>set candidates. level h \<le> 6" using assms by simp
  then have "trivial candidates result m = Some (result @ collapse_spec candidates m)"
    by (rule trivial_collapse)
  moreover have "collapse_spec [] m = []" by (simp add: collapse_spec.simps)
  moreover have "collapse_spec candidates c
      = (case c of Concise \<Rightarrow> [candidates ! last
            (filter (\<lambda>i. level (candidates ! i) = Min (set (map level candidates)))
               [0..<length candidates])]
         | Default \<Rightarrow> map (\<lambda>i. candidates ! i)
            (filter (\<lambda>i. level (candidates ! i) = Min (set (map level candidates)))
               [0..<length candidates]))
        @ collapse_spec (drop (last
            (filter (\<lambda>i. level (candidates ! i) = Min (set (map level candidates)))
               [0..<length candidates]) + 1) candidates) c"
    if "candidates \<noteq> []" for c
    using that by (rule collapse_step) (rule refl)
  ultimately show ?thesis
    unfolding Let_def by (metis display_mode.simps(3,4))
qed

theorem trivial_is_collapse_witness:
  "list_all (\<lambda>h. 1 \<le> level h \<and> level h \<le> 6) [hA1, hA, hA2]
   \<and> trivial [hA1, hA, hA2] [hB] Concise = Some [hB, hA, hA2]"
  using trivial_is_collapse [of "[hA1, hA, hA2]" "[hB]" Concise]
  by (simp add: collapse_spec.simps sample_levels)

text \<open>
  C2. On the candidates H1 "A", H2 "A.1", H2 "A.2", H1 "B" the collapse in default mode
  gives exactly H1 "A", H1 "B" (both headings of level 1 kept, the two of level 2
  dropped), and in concise mode exactly H1 "B".
\<close>

theorem scenario_default_and_concise:
  "trivial [hA, hA1, hA2, hB] [] Default = Some [hA, hB]
   \<and> trivial [hA, hA1, hA2, hB] [] Concise = Some [hB]
   \<and> map heading [hA, hA1, hA2, hB] = [''A'', ''A.1'', ''A.2'', ''B'']
   \<and> map level [hA, hA1, hA2, hB] = [1, 2, 2, 1]"
  by (simp add: trivial.simps indexesOfTopLevel_def topLevel_of_def last_index_def
        slice_after_def push_top_def hA_def hA1_def hA2_def hB_def mk_heading_def)

text \<open>
  C3. For every input and either mode, what \<^verbatim>\<open>trivial\<close> appends to \<^verbatim>\<open>result\<close> is a
  subsequence of the input: every appended heading occurs in the input, in the input's
  order, and nothing is made up. This holds of every call that returns, and a call on
  levels within 1..6 does return.
\<close>

theorem trivial_pushes_subsequence:
  "(\<forall>out. trivial xs result m = Some out
        \<longrightarrow> (\<exists>ys. out = result @ ys \<and> subseq ys xs))
   \<and> ((\<forall>h\<in>set xs. 1 \<le> level h \<and> level h \<le> 6)
        \<longrightarrow> (\<exists>ys. trivial xs result m = Some (result @ ys) \<and> subseq ys xs))"
proof (intro conjI allI impI)
  fix out assume "trivial xs result m = Some out"
  then show "\<exists>ys. out = result @ ys \<and> subseq ys xs" by (rule trivial_appends_subseq)
next
  assume "\<forall>h\<in>set xs. 1 \<le> level h \<and> level h \<le> 6"
  then have le: "\<forall>h\<in>set xs. level h \<le> 6" by simp
  have "trivial xs result m = Some (result @ collapse_spec xs m)" using le by (rule trivial_collapse)
  moreover have "subseq (collapse_spec xs m) xs" using le by (rule collapse_subseq)
  ultimately show "\<exists>ys. trivial xs result m = Some (result @ ys) \<and> subseq ys xs" by blast
qed

theorem trivial_pushes_subsequence_witness:
  "trivial [hA, hA1, hA2, hB] [hA2] Default = Some [hA2, hA, hB]
   \<and> (\<exists>ys. [hA2, hA, hB] = [hA2] @ ys \<and> subseq ys [hA, hA1, hA2, hB])
   \<and> list_all (\<lambda>h. 1 \<le> level h \<and> level h \<le> 6) [hA, hA1, hA2, hB]
   \<and> (\<exists>ys. trivial [hA, hA1, hA2, hB] [hA2] Default = Some ([hA2] @ ys)
             \<and> subseq ys [hA, hA1, hA2, hB])"
proof -
  have run: "trivial [hA, hA1, hA2, hB] [hA2] Default = Some [hA2, hA, hB]"
    by (simp add: trivial.simps indexesOfTopLevel_def topLevel_of_def last_index_def
          slice_after_def push_top_def sample_levels)
  have lv: "\<forall>h\<in>set [hA, hA1, hA2, hB]. 1 \<le> level h \<and> level h \<le> 6"
    by (simp add: sample_levels)
  note inst = trivial_pushes_subsequence [of "[hA, hA1, hA2, hB]" "[hA2]" Default]
  have "\<exists>ys. [hA2, hA, hB] = [hA2] @ ys \<and> subseq ys [hA, hA1, hA2, hB]"
    using inst run by blast
  moreover have "\<exists>ys. trivial [hA, hA1, hA2, hB] [hA2] Default = Some ([hA2] @ ys)
             \<and> subseq ys [hA, hA1, hA2, hB]"
    using inst lv by blast
  moreover have "list_all (\<lambda>h. 1 \<le> level h \<and> level h \<le> 6) [hA, hA1, hA2, hB]"
    by (simp add: sample_levels)
  ultimately show ?thesis using run by blast
qed

text \<open>
  C9. On headings whose levels all lie in 1..6, \<^verbatim>\<open>trivial\<close> terminates: the call returns,
  and on a non-empty array the first fold is the least level present, that level is
  attained, so an index is recorded, the array handed to the recursive call starts right
  after the last recorded index, and it is strictly shorter.
\<close>

theorem trivial_terminates:
  assumes "\<forall>h\<in>set xs. 1 \<le> level h \<and> level h \<le> 6"
  shows "(\<exists>out. trivial xs result m = Some out)
       \<and> (xs \<noteq> [] \<longrightarrow>
            topLevel_of xs = Min (set (map level xs))
          \<and> indexesOfTopLevel xs \<noteq> []
          \<and> last (indexesOfTopLevel xs) < length xs
          \<and> level (xs ! last (indexesOfTopLevel xs)) = topLevel_of xs
          \<and> slice_after (last_index (indexesOfTopLevel xs)) xs
               = drop (last (indexesOfTopLevel xs) + 1) xs
          \<and> length (slice_after (last_index (indexesOfTopLevel xs)) xs) < length xs)"
proof -
  have le: "\<forall>h\<in>set xs. level h \<le> 6" using assms by simp
  have ret: "\<exists>out. trivial xs result m = Some out"
    using trivial_collapse [OF le] by blast
  have step: "topLevel_of xs = Min (set (map level xs))
          \<and> indexesOfTopLevel xs \<noteq> []
          \<and> last (indexesOfTopLevel xs) < length xs
          \<and> level (xs ! last (indexesOfTopLevel xs)) = topLevel_of xs
          \<and> slice_after (last_index (indexesOfTopLevel xs)) xs
               = drop (last (indexesOfTopLevel xs) + 1) xs
          \<and> length (slice_after (last_index (indexesOfTopLevel xs)) xs) < length xs"
    if ne: "xs \<noteq> []"
  proof -
    have idx: "indexesOfTopLevel xs \<noteq> []" using ne le by (rule indexes_nonempty)
    then have f: "filter (\<lambda>i. level (xs ! i) = topLevel_of xs) [0..<length xs] \<noteq> []"
      by (simp add: indexesOfTopLevel_filter)
    have "last (indexesOfTopLevel xs) < length xs"
      using filter_upt_last(1) [OF f] by (simp add: indexesOfTopLevel_filter)
    moreover have "level (xs ! last (indexesOfTopLevel xs)) = topLevel_of xs"
      using filter_upt_last(2) [OF f] by (simp add: indexesOfTopLevel_filter)
    moreover have "slice_after (last_index (indexesOfTopLevel xs)) xs
               = drop (last (indexesOfTopLevel xs) + 1) xs"
      using idx by (simp add: last_index_Some slice_after_def)
    moreover have "length (slice_after (last_index (indexesOfTopLevel xs)) xs) < length xs"
      using ne le by (rule slice_after_shorter)
    moreover have "topLevel_of xs = Min (set (map level xs))"
      using ne le by (rule topLevel_of_Min)
    ultimately show ?thesis using idx by blast
  qed
  show ?thesis using ret step by blast
qed

theorem trivial_terminates_witness:
  "list_all (\<lambda>h. 1 \<le> level h \<and> level h \<le> 6) [hA1, hA, hA2]
   \<and> (\<exists>out. trivial [hA1, hA, hA2] [] Default = Some out)
   \<and> [hA1, hA, hA2] \<noteq> []
   \<and> indexesOfTopLevel [hA1, hA, hA2] = [1]
   \<and> slice_after (last_index (indexesOfTopLevel [hA1, hA, hA2])) [hA1, hA, hA2] = [hA2]
   \<and> length (slice_after (last_index (indexesOfTopLevel [hA1, hA, hA2])) [hA1, hA, hA2])
        < length [hA1, hA, hA2]"
proof -
  have lv: "\<forall>h\<in>set [hA1, hA, hA2]. 1 \<le> level h \<and> level h \<le> 6"
    by (simp add: sample_levels)
  have idx: "indexesOfTopLevel [hA1, hA, hA2] = [1]"
    by (simp add: indexesOfTopLevel_def topLevel_of_def sample_levels)
  have sl: "slice_after (last_index (indexesOfTopLevel [hA1, hA, hA2])) [hA1, hA, hA2] = [hA2]"
    by (simp add: idx last_index_def slice_after_def)
  note inst = trivial_terminates [OF lv, of "[]" Default]
  have "\<exists>out. trivial [hA1, hA, hA2] [] Default = Some out" using inst by blast
  moreover have "length (slice_after (last_index (indexesOfTopLevel [hA1, hA, hA2])) [hA1, hA, hA2])
        < length [hA1, hA, hA2]"
    using inst by blast
  moreover have "list_all (\<lambda>h. 1 \<le> level h \<and> level h \<le> 6) [hA1, hA, hA2]"
    by (simp add: sample_levels)
  ultimately show ?thesis using idx sl by blast
qed

text \<open>
  C10. On headings whose levels all lie in 1..6, the headings appended in concise mode have
  strictly increasing levels, and those appended in default mode have levels that never
  decrease.
\<close>

theorem trivial_levels_ordered:
  assumes "\<forall>h\<in>set xs. 1 \<le> level h \<and> level h \<le> 6"
  shows "(\<exists>ys. trivial xs result Concise = Some (result @ ys) \<and> sorted_wrt (<) (map level ys))
       \<and> (\<exists>ys. trivial xs result Default = Some (result @ ys) \<and> sorted (map level ys))"
proof -
  have le: "\<forall>h\<in>set xs. level h \<le> 6" using assms by simp
  have "trivial xs result Concise = Some (result @ collapse_spec xs Concise)"
    using le by (rule trivial_collapse)
  moreover have "sorted_wrt (<) (map level (collapse_spec xs Concise))"
    using collapse_levels [OF le, of Concise] by simp
  moreover have "trivial xs result Default = Some (result @ collapse_spec xs Default)"
    using le by (rule trivial_collapse)
  moreover have "sorted (map level (collapse_spec xs Default))"
    using collapse_levels [OF le, of Default] by simp
  ultimately show ?thesis by blast
qed

theorem trivial_levels_ordered_witness:
  "list_all (\<lambda>h. 1 \<le> level h \<and> level h \<le> 6) [hA1, hA, hB, hA2]
   \<and> trivial [hA1, hA, hB, hA2] [] Concise = Some [hB, hA2]
   \<and> trivial [hA1, hA, hB, hA2] [] Default = Some [hA, hB, hA2]
   \<and> (\<exists>ys. trivial [hA1, hA, hB, hA2] [] Concise = Some ([] @ ys)
             \<and> sorted_wrt (<) (map level ys))
   \<and> (\<exists>ys. trivial [hA1, hA, hB, hA2] [] Default = Some ([] @ ys)
             \<and> sorted (map level ys))"
proof -
  have lv: "\<forall>h\<in>set [hA1, hA, hB, hA2]. 1 \<le> level h \<and> level h \<le> 6"
    by (simp add: sample_levels)
  have c: "trivial [hA1, hA, hB, hA2] [] Concise = Some [hB, hA2]"
    by (simp add: trivial.simps indexesOfTopLevel_def topLevel_of_def last_index_def
          slice_after_def push_top_def sample_levels)
  have d: "trivial [hA1, hA, hB, hA2] [] Default = Some [hA, hB, hA2]"
    by (simp add: trivial.simps indexesOfTopLevel_def topLevel_of_def last_index_def
          slice_after_def push_top_def sample_levels)
  note inst = trivial_levels_ordered [OF lv, of "[]"]
  have "list_all (\<lambda>h. 1 \<le> level h \<and> level h \<le> 6) [hA1, hA, hB, hA2]"
    by (simp add: sample_levels)
  then show ?thesis using inst c d by blast
qed

section \<open>Truncation\<close>

text \<open>
  \<^verbatim>\<open>slice(-max)\<close> with a positive \<^verbatim>\<open>max\<close> keeps the last \<^verbatim>\<open>max\<close> elements, or all of them
  when there are fewer. This is the truncation \<^verbatim>\<open>renderHeadings\<close> assigns back to
  \<^verbatim>\<open>finalHeadings\<close>.
\<close>

lemma js_rel_neg: "0 < mx \<Longrightarrow> js_rel (- mx) len = len - nat mx"
  by (simp add: js_rel_def)

lemma truncate_max_positive:
  assumes "0 < mx"
  shows "truncate_max mx stack = drop (length stack - nat mx) stack"
    and "length (truncate_max mx stack) = min (length stack) (nat mx)"
  using assms by (simp_all add: truncate_max_def js_slice_from_def js_rel_neg)

lemma truncate_max_zero: "truncate_max 0 stack = stack"
  by (simp add: truncate_max_def)

lemma truncate_max_negative:
  "mx < 0 \<Longrightarrow> truncate_max mx stack = drop (nat (- mx)) stack"
  by (simp add: truncate_max_def js_slice_from_def js_rel_def min_def)

text \<open>
  In \<^verbatim>\<open>makeExpectedHeadings\<close> the value of \<^verbatim>\<open>slice\<close> is dropped, so \<^verbatim>\<open>max\<close> has no
  effect on what is returned.
\<close>

lemma makeExpectedHeadings_ignores_max:
  "makeExpectedHeadings headings mx m index = trivial (js_slice 0 index headings) [] m"
  by (simp add: makeExpectedHeadings_def Let_def split: option.split)

text \<open>
  C4. The truncation is to leave at most \<^verbatim>\<open>max\<close> headings when \<^verbatim>\<open>max\<close> is positive, also in
  the list returned by the function that \<^verbatim>\<open>makeExpectedHeadings\<close> produces. The code does
  not do so there: with the headings "A" and "A.1", \<^verbatim>\<open>max = 1\<close>, default mode and index 2
  the function returns both headings, while the truncation of \<^verbatim>\<open>renderHeadings\<close> applied
  to the same two headings keeps only the last.
\<close>

theorem makeExpectedHeadings_keeps_all:
  "makeExpectedHeadings [hA, hA1] 1 Default 2 = Some [hA, hA1]
   \<and> length [hA, hA1] > nat 1
   \<and> truncate_max 1 [hA, hA1] = [hA1]"
  by (simp add: makeExpectedHeadings_def js_slice_def js_rel_def js_slice_from_def
        truncate_max_def trivial.simps indexesOfTopLevel_def topLevel_of_def
        last_index_def slice_after_def push_top_def sample_levels)

lemma renderHeadings_truncates:
  assumes "renderHeadings settings headings scrollTop = Some shown" "0 < max_setting settings"
  shows "length shown \<le> nat (max_setting settings)"
  using assms
  by (auto simp: renderHeadings_def Let_def truncate_max_positive(2) split: option.splits if_splits)

section \<open>The active-heading filter\<close>

text \<open>
  The filter of \<^verbatim>\<open>renderHeadings\<close> does not look at resolved offsets or at the height of
  the sticky band. For the heading "A", which ends on line 0 and whose resolved offset in
  the sample preview is 30, with \<^verbatim>\<open>scrollTop = 5\<close> and a band of height 2: the described
  filter drops it, since 30 exceeds 7, and the filter of \<^verbatim>\<open>renderHeadings\<close> keeps it, since
  line 0 plus one is at most 5.
\<close>

theorem filter_described_counterexample:
  "getHeadingsWithOffsetPreview [hA] preview_view = [\<lparr>po_heading = hA, po_offset = 30\<rparr>]
   \<and> active_filter_spec (getHeadingsWithOffsetPreview [hA] preview_view) 5 2 = []
   \<and> validHeadings_of [hA] 5 = [hA]"
  by (simp add: active_filter_spec_def
        getHeadingsWithOffsetPreview_def preview_view_def sample_sections_def
        preview_step_def isHeading_def height_of_def nth_opt_def or_zero_def
        validHeadings_of_def hA_def mk_heading_def)

text \<open>
  C5, as the code has it. For every heading sequence and every \<^verbatim>\<open>scrollTop\<close>, the filter
  of \<^verbatim>\<open>renderHeadings\<close> selects exactly the headings whose end line plus one is at most
  \<^verbatim>\<open>scrollTop\<close>; it keeps the input order, and it tests every heading by itself, whatever
  stands before or behind it (no sortedness is assumed).
\<close>

theorem validHeadings_by_end_line:
  "set (validHeadings_of headings scrollTop)
     = {h \<in> set headings. real_of_int (line (pos_end (position h)) + 1) \<le> scrollTop}
   \<and> subseq (validHeadings_of headings scrollTop) headings
   \<and> validHeadings_of [] scrollTop = []
   \<and> validHeadings_of [h] scrollTop
       = (if real_of_int (line (pos_end (position h)) + 1) \<le> scrollTop then [h] else [])
   \<and> validHeadings_of (before @ behind) scrollTop
       = validHeadings_of before scrollTop @ validHeadings_of behind scrollTop"
  by (simp add: validHeadings_of_def)

section \<open>Offsets in preview mode\<close>

lemma or_zero_simps: "or_zero (Some x) = x" "or_zero None = 0"
  by (simp_all add: or_zero_def)

lemma preview_fold:
  "foldl preview_step (offs, s) secs =
     (offs @ map (\<lambda>j. s + sum_list (map height_of (take j secs)))
               (filter (\<lambda>j. isHeading (html (secs ! j))) [0..<length secs]),
      s + sum_list (map height_of secs))"
proof (induction secs rule: rev_induct)
  case Nil
  then show ?case by simp
next
  case (snoc x secs)
  let ?Q = "\<lambda>j. isHeading (html (secs ! j))"
  have f: "filter (\<lambda>j. isHeading (html ((secs @ [x]) ! j))) [0..<length secs]
             = filter ?Q [0..<length secs]"
    by (rule filter_cong) (auto simp: nth_append)
  have m: "map (\<lambda>j. s + sum_list (map height_of (take j (secs @ [x])))) (filter ?Q [0..<length secs])
             = map (\<lambda>j. s + sum_list (map height_of (take j secs))) (filter ?Q [0..<length secs])"
    by (rule map_cong) auto
  have t: "take (length secs) (secs @ [x]) = secs" by simp
  have "foldl preview_step (offs, s) (secs @ [x])
          = preview_step (foldl preview_step (offs, s) secs) x"
    by simp
  also have "\<dots> = preview_step
      (offs @ map (\<lambda>j. s + sum_list (map height_of (take j secs))) (filter ?Q [0..<length secs]),
       s + sum_list (map height_of secs)) x"
    by (simp only: snoc)
  also have "\<dots> =
     (offs @ map (\<lambda>j. s + sum_list (map height_of (take j (secs @ [x]))))
               (filter (\<lambda>j. isHeading (html ((secs @ [x]) ! j))) [0..<length (secs @ [x])]),
      s + sum_list (map height_of (secs @ [x])))"
    by (simp add: preview_step_def f m t del: take_append)
  finally show ?case .
qed

lemma preview_offsets:
  "fst (foldl preview_step ([], 0) secs)
     = map (\<lambda>j. sum_list (map height_of (take j secs)))
         (filter (\<lambda>j. isHeading (html (secs ! j))) [0..<length secs])"
  by (simp add: preview_fold)

lemma preview_nth:
  assumes "i < length headings"
  shows "getHeadingsWithOffsetPreview headings view ! i
     = \<lparr>po_heading = headings ! i,
        po_offset = or_zero (nth_opt (fst (foldl preview_step ([], 0) (sections view))) i)\<rparr>"
  using assms by (simp add: getHeadingsWithOffsetPreview_def)

lemma preview_length: "length (getHeadingsWithOffsetPreview headings view) = length headings"
  by (simp add: getHeadingsWithOffsetPreview_def)

lemma preview_headings: "map po_heading (getHeadingsWithOffsetPreview headings view) = headings"
proof (rule nth_equalityI)
  show "length (map po_heading (getHeadingsWithOffsetPreview headings view)) = length headings"
    by (simp add: preview_length)
next
  fix i assume "i < length (map po_heading (getHeadingsWithOffsetPreview headings view))"
  then have "i < length headings" by (simp add: preview_length)
  then show "map po_heading (getHeadingsWithOffsetPreview headings view) ! i = headings ! i"
    by (simp add: preview_length preview_nth)
qed

text \<open>
  C6. For every heading list and every list of rendered sections, the preview resolver
  returns one resolved heading per input heading, in the same order. The offset of the
  heading at position \<open>i\<close> is the sum of the heights of all sections strictly before the
  \<open>i\<close>-th section that is a heading block, when there is such a block, and 0 when fewer
  heading blocks are rendered. (No assumption on the heights is needed; a missing height
  counts as 0.)
\<close>

theorem preview_offsets_are_running_sums:
  "length (getHeadingsWithOffsetPreview headings view) = length headings
   \<and> map po_heading (getHeadingsWithOffsetPreview headings view) = headings
   \<and> (\<forall>i<length headings.
         po_offset (getHeadingsWithOffsetPreview headings view ! i)
           = (let headingBlocks = filter (\<lambda>j. isHeading (html (sections view ! j)))
                                    [0..<length (sections view)]
              in if i < length headingBlocks
                 then sum_list (map height_of (take (headingBlocks ! i) (sections view)))
                 else 0))"
proof (intro conjI allI impI)
  fix i assume i: "i < length headings"
  show "po_offset (getHeadingsWithOffsetPreview headings view ! i)
           = (let headingBlocks = filter (\<lambda>j. isHeading (html (sections view ! j)))
                                    [0..<length (sections view)]
              in if i < length headingBlocks
                 then sum_list (map height_of (take (headingBlocks ! i) (sections view)))
                 else 0)"
    by (simp add: preview_nth [OF i] preview_offsets nth_opt_def or_zero_simps Let_def)
qed (simp_all add: preview_length preview_headings)

theorem preview_offsets_are_running_sums_witness:
  "map po_offset (getHeadingsWithOffsetPreview [hA, hA1, hA2] preview_view) = [30, 50, 0]
   \<and> filter (\<lambda>j. isHeading (html (sections preview_view ! j)))
        [0..<length (sections preview_view)] = [1, 3]
   \<and> (0::nat) < length [hA, hA1, hA2]
   \<and> po_offset (getHeadingsWithOffsetPreview [hA, hA1, hA2] preview_view ! 0)
        = sum_list (map height_of (take 1 (sections preview_view)))
   \<and> (2::nat) < length [hA, hA1, hA2]
   \<and> po_offset (getHeadingsWithOffsetPreview [hA, hA1, hA2] preview_view ! 2) = 0"
proof -
  have blocks: "filter (\<lambda>j. isHeading (html (sections preview_view ! j)))
        [0..<length (sections preview_view)] = [1, 3]"
    by (simp add: preview_view_def sample_sections_def isHeading_def)
  have run: "map po_offset (getHeadingsWithOffsetPreview [hA, hA1, hA2] preview_view) = [30, 50, 0]"
    by (simp add: getHeadingsWithOffsetPreview_def preview_view_def sample_sections_def
          preview_step_def isHeading_def height_of_def nth_opt_def or_zero_def)
  note inst = preview_offsets_are_running_sums [of "[hA, hA1, hA2]" preview_view]
  have "po_offset (getHeadingsWithOffsetPreview [hA, hA1, hA2] preview_view ! 0)
        = sum_list (map height_of (take 1 (sections preview_view)))"
    using inst by (simp add: blocks)
  moreover have "po_offset (getHeadingsWithOffsetPreview [hA, hA1, hA2] preview_view ! 2) = 0"
    using inst by (simp add: blocks)
  ultimately show ?thesis using blocks run by simp
qed

section \<open>Offsets in source mode, and both strategies together\<close>

lemma preview_unrendered:
  assumes "i < length headings"
    and "length (filter (\<lambda>j. isHeading (html (sections view ! j))) [0..<length (sections view)]) \<le> i"
  shows "po_offset (getHeadingsWithOffsetPreview headings view ! i) = 0"
  using assms(2)
  by (simp add: preview_nth [OF assms(1)] preview_offsets nth_opt_def or_zero_simps)

text \<open>
  When the container lookup does not throw and every heading's line block is given, the
  loop of the source strategy runs through and pushes one object per heading.
\<close>

lemma source_loop_answered:
  assumes "container_offset (contentContainer_offsetTop view) = Inr off"
    and "\<forall>h\<in>set hs. \<exists>blk. lineBlockAt view (offset (pos_start (position h))) = Gives blk"
  shows "source_loop view hs acc
     = Inr (acc @ map (\<lambda>h. \<lparr>po_heading = h,
              po_offset = (case lineBlockAt view (offset (pos_start (position h))) of
                             Gives blk \<Rightarrow> top_or_zero blk | _ \<Rightarrow> 0) + off\<rparr>) hs)"
  using assms(2)
proof (induction hs arbitrary: acc)
  case Nil
  then show ?case by simp
next
  case (Cons h hs)
  obtain blk where blk: "lineBlockAt view (offset (pos_start (position h))) = Gives blk"
    using Cons.prems by auto
  have rest: "\<forall>h\<in>set hs. \<exists>blk. lineBlockAt view (offset (pos_start (position h))) = Gives blk"
    using Cons.prems by simp
  show ?case
    by (simp add: assms(1) blk line_top_def Cons.IH [OF rest])
qed

text \<open>
  A heading whose line block is not given stops the call with an error, whatever the
  other headings are.
\<close>

lemma source_loop_unanswered:
  assumes "h \<in> set hs"
    and "\<forall>blk. lineBlockAt view (offset (pos_start (position h))) \<noteq> Gives blk"
  shows "\<exists>e. source_loop view hs acc = Inl e"
  using assms(1)
proof (induction hs arbitrary: acc)
  case Nil
  then show ?case by simp
next
  case (Cons g hs)
  show ?case
  proof (cases "container_offset (contentContainer_offsetTop view)")
    case (Inl e)
    then show ?thesis by simp
  next
    case (Inr off)
    show ?thesis
    proof (cases "line_top (lineBlockAt view (offset (pos_start (position g))))")
      case (Inl e)
      then show ?thesis using Inr by simp
    next
      case tp: (Inr tp)
      then have "\<exists>blk. lineBlockAt view (offset (pos_start (position g))) = Gives blk"
        by (cases "lineBlockAt view (offset (pos_start (position g)))") (simp_all add: line_top_def)
      then have "g \<noteq> h" using assms(2) by auto
      then have "h \<in> set hs" using Cons.prems by simp
      then show ?thesis using Inr tp Cons.IH by simp
    qed
  qed
qed

text \<open>
  The wording of the design document fails on two inputs. In source mode a heading whose
  line block carries no \<^verbatim>\<open>top\<close> does not get the offset 0 when the content container is
  found with a non-zero \<^verbatim>\<open>offsetTop\<close>: the container sits at 10, and the heading "A" is
  resolved to 10. And resolution does throw: when \<^verbatim>\<open>lineBlockAt\<close> gives nothing for the
  heading, or the view has no renderer in preview mode, the call ends in a
  \<^verbatim>\<open>TypeError\<close> and returns no resolved heading at all.
\<close>

theorem source_offset_counterexample:
  "isEditSourceMode source_view
   \<and> lineBlockAt source_view (offset (pos_start (position hA))) = Gives \<lparr>block_top = None\<rparr>
   \<and> getHeadingsWithOffset [hA] source_view = Inr [\<lparr>po_heading = hA, po_offset = 10\<rparr>]
   \<and> isEditSourceMode unanswered_view
   \<and> lineBlockAt unanswered_view (offset (pos_start (position hA))) = Nothing
   \<and> getHeadingsWithOffset [hA] unanswered_view = Inl TypeError
   \<and> \<not> isEditSourceMode unrendered_view
   \<and> previewMode_renderer unrendered_view = Nothing
   \<and> getHeadingsWithOffset [hA] unrendered_view = Inl TypeError"
  by (simp add: getHeadingsWithOffset_def getHeadingsWithOffsetSource_def
        getHeadingsWithOffsetPreview_view_def source_view_def unanswered_view_def
        unrendered_view_def container_offset_def line_top_def top_or_zero_def or_zero_def
        hA_def mk_heading_def)

text \<open>
  C7, as the code has it. In source mode, when the container lookup does not throw and
  \<^verbatim>\<open>lineBlockAt\<close> gives a block for every heading, resolution returns one resolved heading
  per input heading, in order; the offset is the block's \<^verbatim>\<open>top\<close> plus the container's
  \<^verbatim>\<open>offsetTop\<close>, each replaced by 0 when it is missing, so a heading whose block has no
  \<^verbatim>\<open>top\<close> is resolved to the container's \<^verbatim>\<open>offsetTop\<close>, and to 0 when no container
  is found either. In preview mode, when the view gives its renderer, resolution returns
  one resolved heading per input heading, in order, and a heading with no rendered
  heading block is resolved to 0.
\<close>

theorem resolution_defaults:
  "(isEditSourceMode view
      \<and> container_offset (contentContainer_offsetTop view) = Inr off
      \<and> (\<forall>h\<in>set headings. \<exists>blk. lineBlockAt view (offset (pos_start (position h))) = Gives blk)
    \<longrightarrow> (\<exists>res. getHeadingsWithOffset headings view = Inr res
          \<and> length res = length headings
          \<and> map po_heading res = headings
          \<and> (\<forall>i<length headings. \<forall>blk.
                lineBlockAt view (offset (pos_start (position (headings ! i)))) = Gives blk
                \<longrightarrow> po_offset (res ! i) = top_or_zero blk + off
                    \<and> (block_top blk = None \<longrightarrow> po_offset (res ! i) = off)
                    \<and> (block_top blk = None \<and> contentContainer_offsetTop view = Nothing
                         \<longrightarrow> po_offset (res ! i) = 0))))
   \<and> (\<not> isEditSourceMode view \<and> previewMode_renderer view = Gives renderer
    \<longrightarrow> (\<exists>res. getHeadingsWithOffset headings view = Inr res
          \<and> length res = length headings
          \<and> map po_heading res = headings
          \<and> (\<forall>i<length headings.
                length (filter (\<lambda>j. isHeading (html (sections renderer ! j)))
                          [0..<length (sections renderer)]) \<le> i
                \<longrightarrow> po_offset (res ! i) = 0)))"
proof (intro conjI impI)
  assume a: "isEditSourceMode view
      \<and> container_offset (contentContainer_offsetTop view) = Inr off
      \<and> (\<forall>h\<in>set headings. \<exists>blk. lineBlockAt view (offset (pos_start (position h))) = Gives blk)"
  let ?res = "map (\<lambda>h. \<lparr>po_heading = h,
              po_offset = (case lineBlockAt view (offset (pos_start (position h))) of
                             Gives blk \<Rightarrow> top_or_zero blk | _ \<Rightarrow> 0) + off\<rparr>) headings"
  have run: "getHeadingsWithOffset headings view = Inr ?res"
    using a source_loop_answered [of view off headings "[]"]
    by (simp add: getHeadingsWithOffset_def getHeadingsWithOffsetSource_def)
  have len: "length ?res = length headings" by simp
  have hd: "map po_heading ?res = headings" by (simp add: comp_def)
  have off: "po_offset (?res ! i) = top_or_zero blk + off
                    \<and> (block_top blk = None \<longrightarrow> po_offset (?res ! i) = off)
                    \<and> (block_top blk = None \<and> contentContainer_offsetTop view = Nothing
                         \<longrightarrow> po_offset (?res ! i) = 0)"
    if i: "i < length headings"
      and blk: "lineBlockAt view (offset (pos_start (position (headings ! i)))) = Gives blk"
    for i blk
  proof -
    have v: "po_offset (?res ! i) = top_or_zero blk + off" using i blk by simp
    have z: "off = 0" if "contentContainer_offsetTop view = Nothing"
      using a that by (simp add: container_offset_def)
    have t: "top_or_zero blk = 0" if "block_top blk = None"
      using that by (simp add: top_or_zero_def)
    show ?thesis
    proof (intro conjI impI)
      show "po_offset (?res ! i) = top_or_zero blk + off" by (rule v)
    next
      assume "block_top blk = None"
      then show "po_offset (?res ! i) = off" using v t by simp
    next
      assume "block_top blk = None \<and> contentContainer_offsetTop view = Nothing"
      then have "top_or_zero blk = 0" "off = 0" using z t by blast+
      then show "po_offset (?res ! i) = 0" using v by simp
    qed
  qed
  show "\<exists>res. getHeadingsWithOffset headings view = Inr res
          \<and> length res = length headings
          \<and> map po_heading res = headings
          \<and> (\<forall>i<length headings. \<forall>blk.
                lineBlockAt view (offset (pos_start (position (headings ! i)))) = Gives blk
                \<longrightarrow> po_offset (res ! i) = top_or_zero blk + off
                    \<and> (block_top blk = None \<longrightarrow> po_offset (res ! i) = off)
                    \<and> (block_top blk = None \<and> contentContainer_offsetTop view = Nothing
                         \<longrightarrow> po_offset (res ! i) = 0))"
    using run len hd off by blast
next
  assume b: "\<not> isEditSourceMode view \<and> previewMode_renderer view = Gives renderer"
  let ?res = "getHeadingsWithOffsetPreview headings renderer"
  have run: "getHeadingsWithOffset headings view = Inr ?res"
    using b by (simp add: getHeadingsWithOffset_def getHeadingsWithOffsetPreview_view_def)
  have len: "length ?res = length headings" by (rule preview_length)
  have hd: "map po_heading ?res = headings" by (rule preview_headings)
  have zero: "po_offset (?res ! i) = 0"
    if "i < length headings"
      and "length (filter (\<lambda>j. isHeading (html (sections renderer ! j)))
                          [0..<length (sections renderer)]) \<le> i" for i
    using that by (rule preview_unrendered)
  show "\<exists>res. getHeadingsWithOffset headings view = Inr res
          \<and> length res = length headings
          \<and> map po_heading res = headings
          \<and> (\<forall>i<length headings.
                length (filter (\<lambda>j. isHeading (html (sections renderer ! j)))
                          [0..<length (sections renderer)]) \<le> i
                \<longrightarrow> po_offset (res ! i) = 0)"
    using run len hd zero by blast
qed

theorem resolution_defaults_witness:
  "isEditSourceMode source_view
   \<and> container_offset (contentContainer_offsetTop source_view) = Inr 10
   \<and> list_all (\<lambda>h. \<exists>blk. lineBlockAt source_view (offset (pos_start (position h))) = Gives blk)
        [hA, hA1]
   \<and> getHeadingsWithOffset [hA, hA1] source_view
        = Inr [\<lparr>po_heading = hA, po_offset = 10\<rparr>, \<lparr>po_heading = hA1, po_offset = 110\<rparr>]
   \<and> (\<exists>res. getHeadingsWithOffset [hA, hA1] source_view = Inr res
         \<and> length res = length [hA, hA1] \<and> map po_heading res = [hA, hA1]
         \<and> po_offset (res ! 0) = 10)
   \<and> \<not> isEditSourceMode reading_view
   \<and> previewMode_renderer reading_view = Gives preview_view
   \<and> length (filter (\<lambda>j. isHeading (html (sections preview_view ! j)))
                [0..<length (sections preview_view)]) \<le> 2
   \<and> (\<exists>res. getHeadingsWithOffset [hA, hA1, hA2] reading_view = Inr res
         \<and> length res = length [hA, hA1, hA2] \<and> map po_heading res = [hA, hA1, hA2]
         \<and> po_offset (res ! 2) = 0)"
proof -
  have src: "isEditSourceMode source_view"
    "container_offset (contentContainer_offsetTop source_view) = Inr 10"
    by (simp_all add: source_view_def container_offset_def or_zero_def)
  have blocks: "\<forall>h\<in>set [hA, hA1].
      \<exists>blk. lineBlockAt source_view (offset (pos_start (position h))) = Gives blk"
    by (simp add: source_view_def hA_def hA1_def mk_heading_def)
  have b0: "lineBlockAt source_view (offset (pos_start (position ([hA, hA1] ! 0))))
              = Gives \<lparr>block_top = None\<rparr>"
    by (simp add: source_view_def hA_def mk_heading_def)
  have run: "getHeadingsWithOffset [hA, hA1] source_view
        = Inr [\<lparr>po_heading = hA, po_offset = 10\<rparr>, \<lparr>po_heading = hA1, po_offset = 110\<rparr>]"
    by (simp add: getHeadingsWithOffset_def getHeadingsWithOffsetSource_def source_view_def
          container_offset_def line_top_def top_or_zero_def or_zero_def
          hA_def hA1_def mk_heading_def)
  have prv: "\<not> isEditSourceMode reading_view"
    "previewMode_renderer reading_view = Gives preview_view"
    by (simp_all add: reading_view_def)
  have few: "length (filter (\<lambda>j. isHeading (html (sections preview_view ! j)))
                [0..<length (sections preview_view)]) \<le> 2"
    by (simp add: preview_view_def sample_sections_def isHeading_def)
  have len0: "(0::nat) < length [hA, hA1]" and len2: "(2::nat) < length [hA, hA1, hA2]"
    by simp_all
  note s = resolution_defaults [where view = source_view and off = 10
      and headings = "[hA, hA1]", THEN conjunct1, THEN mp, OF conjI [OF src(1) conjI [OF src(2) blocks]]]
  note p = resolution_defaults [where view = reading_view and renderer = preview_view
      and headings = "[hA, hA1, hA2]", THEN conjunct2, THEN mp, OF conjI [OF prv]]
  from s obtain rs where rs: "getHeadingsWithOffset [hA, hA1] source_view = Inr rs"
      "length rs = length [hA, hA1]" "map po_heading rs = [hA, hA1]"
    and rs_off: "\<forall>i<length [hA, hA1]. \<forall>blk.
        lineBlockAt source_view (offset (pos_start (position ([hA, hA1] ! i)))) = Gives blk
        \<longrightarrow> po_offset (rs ! i) = top_or_zero blk + 10
            \<and> (block_top blk = None \<longrightarrow> po_offset (rs ! i) = 10)
            \<and> (block_top blk = None \<and> contentContainer_offsetTop source_view = Nothing
                 \<longrightarrow> po_offset (rs ! i) = 0)"
    by (elim exE conjE)
  have "block_top \<lparr>block_top = None\<rparr> = None \<longrightarrow> po_offset (rs ! 0) = 10"
    using rs_off [rule_format, OF len0 b0] by (elim conjE)
  then have rs0: "po_offset (rs ! 0) = 10" by simp
  have s': "\<exists>res. getHeadingsWithOffset [hA, hA1] source_view = Inr res
         \<and> length res = length [hA, hA1] \<and> map po_heading res = [hA, hA1]
         \<and> po_offset (res ! 0) = 10"
    using rs rs0 by (intro exI [of _ rs] conjI)
  from p obtain rp where rp: "getHeadingsWithOffset [hA, hA1, hA2] reading_view = Inr rp"
      "length rp = length [hA, hA1, hA2]" "map po_heading rp = [hA, hA1, hA2]"
    and rp_zero: "\<forall>i<length [hA, hA1, hA2].
        length (filter (\<lambda>j. isHeading (html (sections preview_view ! j)))
                  [0..<length (sections preview_view)]) \<le> i
        \<longrightarrow> po_offset (rp ! i) = 0"
    by (elim exE conjE)
  have rp2: "po_offset (rp ! 2) = 0"
    using rp_zero [rule_format, OF len2 few] .
  have p': "\<exists>res. getHeadingsWithOffset [hA, hA1, hA2] reading_view = Inr res
         \<and> length res = length [hA, hA1, hA2] \<and> map po_heading res = [hA, hA1, hA2]
         \<and> po_offset (res ! 2) = 0"
    using rp rp2 by (intro exI [of _ rp] conjI)
  have all: "list_all (\<lambda>h. \<exists>blk. lineBlockAt source_view (offset (pos_start (position h))) = Gives blk)
        [hA, hA1]"
    using blocks by simp
  show ?thesis
    by (intro conjI src all run s' prv few p')
qed


section \<open>The \<^verbatim>\<open>max\<close> setting at the boundary\<close>

lemma parse_samples:
  "parseInt10 ''-1'' = Some (- 1)" "parseInt10 ''abc'' = None" "parseInt10 '' 2px'' = Some 2"
  "parseInt10 [] = None" "parseInt10 ''+07'' = Some 7" "parseInt10 ''-'' = None"
  by (simp_all add: parseInt10_def isWhiteSpace_def isDigit_def digits_value_def)

text \<open>
  C8. A malformed \<^verbatim>\<open>max\<close>, negative or not a number, is to be normalised to 0 (unlimited)
  where the settings field is parsed, so that the \<^verbatim>\<open>max\<close> used by the truncation is never
  negative. The handler \<^verbatim>\<open>parseInt(value, 10) || 0\<close> does so for a text without a number
  only. A negative number is stored as it is: the text "-1" gives \<^verbatim>\<open>max = -1\<close>, and the
  truncation then removes the first heading instead of leaving the stack alone. With the
  four sample headings all scrolled past, default mode shows "B" only, where
  \<^verbatim>\<open>max = 0\<close> shows "A" and "B".
\<close>

theorem negative_max_not_normalised:
  "max_setting (onChange_max sample_settings ''-1'') = - 1
   \<and> truncate_max (max_setting (onChange_max sample_settings ''-1'')) [hA, hA1, hB] = [hA1, hB]
   \<and> renderHeadings (onChange_max sample_settings ''-1'') [hA, hA1, hA2, hB] 100 = Some [hB]
   \<and> renderHeadings (onChange_max sample_settings ''0'') [hA, hA1, hA2, hB] 100 = Some [hA, hB]"
  by (simp add: onChange_max_def sample_settings_def parseInt10_def isWhiteSpace_def isDigit_def
        digits_value_def truncate_max_def js_slice_from_def js_rel_def renderHeadings_def
        validHeadings_of_def trivial.simps indexesOfTopLevel_def topLevel_of_def
        last_index_def slice_after_def push_top_def hA_def hA1_def hA2_def hB_def mk_heading_def)

text \<open>
  What the handler does for every text: a text in which \<^verbatim>\<open>parseInt\<close> finds no number
  gives \<^verbatim>\<open>max = 0\<close>, and a text that parses to an integer gives that integer; the other
  settings are kept. A \<^verbatim>\<open>max\<close> of 0 leaves the stack unchanged, and a positive \<^verbatim>\<open>max\<close>
  keeps the last \<^verbatim>\<open>max\<close> headings, all of them when there are fewer.
\<close>

lemma max_parsed_at_boundary:
  "(parseInt10 v = None \<longrightarrow> max_setting (onChange_max settings v) = 0)
   \<and> (\<forall>n. parseInt10 v = Some n \<longrightarrow> max_setting (onChange_max settings v) = n)
   \<and> mode (onChange_max settings v) = mode settings
   \<and> (max_setting (onChange_max settings v) = 0
        \<longrightarrow> truncate_max (max_setting (onChange_max settings v)) stack = stack)
   \<and> (0 < max_setting (onChange_max settings v)
        \<longrightarrow> truncate_max (max_setting (onChange_max settings v)) stack
              = drop (length stack - nat (max_setting (onChange_max settings v))) stack
          \<and> length (truncate_max (max_setting (onChange_max settings v)) stack)
              = min (length stack) (nat (max_setting (onChange_max settings v))))"
proof (intro conjI allI impI)
  show "mode (onChange_max settings v) = mode settings" by (simp add: onChange_max_def)
next
  assume "parseInt10 v = None"
  then show "max_setting (onChange_max settings v) = 0" by (simp add: onChange_max_def)
next
  fix n assume "parseInt10 v = Some n"
  then show "max_setting (onChange_max settings v) = n" by (simp add: onChange_max_def)
next
  assume "max_setting (onChange_max settings v) = 0"
  then show "truncate_max (max_setting (onChange_max settings v)) stack = stack"
    by (simp add: truncate_max_zero)
next
  assume p: "0 < max_setting (onChange_max settings v)"
  show "truncate_max (max_setting (onChange_max settings v)) stack
              = drop (length stack - nat (max_setting (onChange_max settings v))) stack"
    using p by (rule truncate_max_positive(1))
  show "length (truncate_max (max_setting (onChange_max settings v)) stack)
              = min (length stack) (nat (max_setting (onChange_max settings v)))"
    using p by (rule truncate_max_positive(2))
qed

lemma max_parsed_at_boundary_samples:
  "parseInt10 ''abc'' = None
   \<and> max_setting (onChange_max sample_settings ''abc'') = 0
   \<and> truncate_max (max_setting (onChange_max sample_settings ''abc'')) [hA, hA1, hB]
        = [hA, hA1, hB]
   \<and> parseInt10 '' 2px'' = Some 2
   \<and> max_setting (onChange_max sample_settings '' 2px'') = 2
   \<and> truncate_max (max_setting (onChange_max sample_settings '' 2px'')) [hA, hA1, hB]
        = [hA1, hB]"
proof -
  note a = max_parsed_at_boundary [of "''abc''" sample_settings "[hA, hA1, hB]"]
  note b = max_parsed_at_boundary [of "'' 2px''" sample_settings "[hA, hA1, hB]"]
  have a0: "max_setting (onChange_max sample_settings ''abc'') = 0"
    using a parse_samples(2) by blast
  have a1: "truncate_max (max_setting (onChange_max sample_settings ''abc'')) [hA, hA1, hB]
        = [hA, hA1, hB]"
    using a a0 by blast
  have b0: "max_setting (onChange_max sample_settings '' 2px'') = 2"
    using b parse_samples(3) by blast
  have "truncate_max (max_setting (onChange_max sample_settings '' 2px'')) [hA, hA1, hB]
        = drop (length [hA, hA1, hB] - nat (max_setting (onChange_max sample_settings '' 2px'')))
            [hA, hA1, hB]"
    using b b0 by simp
  then have b1: "truncate_max (max_setting (onChange_max sample_settings '' 2px'')) [hA, hA1, hB]
        = [hA1, hB]"
    by (simp add: b0)
  show ?thesis using a0 a1 b0 b1 parse_samples(2,3) by simp
qed

end
